theory Spec2Isabelle
  imports
    Complex_Main
    "HOL-Library.Sorting_Algorithms"
    "HOL-Library.List_Lexorder"
    "HOL-Library.Char_ord"
begin

section \<open>Values handed to the wiring editor\<close>

text \<open>
  The wiring editor receives the result of \<^verbatim>\<open>JSON.parse\<close>, typed \<^verbatim>\<open>unknown\<close>.
  A parsed JSON value is null, a boolean, a number, a string, an array or an object.
  Numbers are idealised as rationals (no function below computes with them), strings are
  lists of code units, and an object is the list of its properties, each name once, read
  with \<open>map_of\<close>.
\<close>

datatype json =
    JNull
  | JBool bool
  | JNum rat
  | JStr string
  | JArr "json list"
  | JObj "(string \<times> json) list"

text \<open>JavaScript truthiness and the \<^verbatim>\<open>typeof\<close> operator on parsed JSON.\<close>

datatype js_type = TObject | TBoolean | TNumber | TString

fun truthy :: "json \<Rightarrow> bool" where
  "truthy JNull = False"
| "truthy (JBool b) = b"
| "truthy (JNum n) = (n \<noteq> 0)"
| "truthy (JStr s) = (s \<noteq> [])"
| "truthy (JArr xs) = True"
| "truthy (JObj kvs) = True"

fun typeof :: "json \<Rightarrow> js_type" where
  "typeof JNull = TObject"
| "typeof (JBool b) = TBoolean"
| "typeof (JNum n) = TNumber"
| "typeof (JStr s) = TString"
| "typeof (JArr xs) = TObject"
| "typeof (JObj kvs) = TObject"

fun isArray :: "json \<Rightarrow> bool" where
  "isArray (JArr xs) = True"
| "isArray v = False"

text \<open>
  Reading a property \<^verbatim>\<open>entry.k\<close> for one of the names \<^verbatim>\<open>from\<close>, \<^verbatim>\<open>to\<close>,
  \<^verbatim>\<open>targets\<close>: \<open>None\<close> is \<^verbatim>\<open>undefined\<close>. Arrays have no property of these names.
\<close>

fun getProp :: "json \<Rightarrow> string \<Rightarrow> json option" where
  "getProp (JObj kvs) k = map_of kvs k"
| "getProp v k = None"

section \<open>Errors\<close>

text \<open>
  \<open>SyntaxError\<close> is what \<^verbatim>\<open>JSON.parse\<close> throws, with its message;
  \<open>WiringNotArray\<close> is the \<^verbatim>\<open>Error\<close> thrown by \<open>normalizeWiring\<close>.
\<close>

datatype error = SyntaxError string | WiringNotArray

fun message :: "error \<Rightarrow> string" where
  "message (SyntaxError m) = m"
| "message WiringNotArray = ''Wiring must be a JSON array.''"

section \<open>The reference parser\<close>

text \<open>\<^verbatim>\<open>String.prototype.indexOf\<close> for a single code unit: \<open>-1\<close> when absent.\<close>

fun indexOf :: "string \<Rightarrow> char \<Rightarrow> int" where
  "indexOf [] c = - 1"
| "indexOf (x # xs) c =
     (if x = c then 0
      else (let i = indexOf xs c in if i < 0 then - 1 else i + 1))"

record parsed_ref =
  module :: string
  port :: string

definition parseRef :: "string \<Rightarrow> parsed_ref option" where
  "parseRef ref =
     (let idx = indexOf ref (CHR ''.'') in
      if idx \<le> 0 \<or> idx \<ge> int (length ref) - 1 then None
      else Some \<lparr>module = take (nat idx) ref, port = drop (nat (idx + 1)) ref\<rparr>)"

section \<open>Normalising the raw wiring\<close>

definition normalizeWiring :: "json \<Rightarrow> error + json list" where
  "normalizeWiring raw =
     (if \<not> isArray raw then Inl WiringNotArray
      else case raw of
        JArr entries \<Rightarrow> Inr (filter (\<lambda>entry. truthy entry \<and> typeof entry = TObject) entries)
      | _ \<Rightarrow> Inl WiringNotArray)"

section \<open>From the wiring to the edges of the graph\<close>

text \<open>
  An edge of the graph editor. \<open>sourceHandle\<close> and \<open>targetHandle\<close> may be absent
  (\<^verbatim>\<open>null\<close> or \<^verbatim>\<open>undefined\<close>) in the editor's edge type. The constant presentation
  fields \<^verbatim>\<open>type\<close> and \<^verbatim>\<open>style\<close> are the same on every edge and are left out.
\<close>

record edge =
  edge_id :: string
  source :: string
  sourceHandle :: "string option"
  target :: string
  targetHandle :: "string option"

text \<open>Decimal rendering of the edge counter inside a template literal.\<close>

fun digit_char :: "nat \<Rightarrow> char" where
  "digit_char d = char_of (48 + d)"

fun show_nat :: "nat \<Rightarrow> string" where
  "show_nat n = (if n < 10 then [digit_char n] else show_nat (n div 10) @ [digit_char (n mod 10)])"

text \<open>
  \<^verbatim>\<open>const srcRef = typeof entry.from === 'string' ? entry.from : ''\<close>
\<close>

definition srcRef_of :: "json \<Rightarrow> string" where
  "srcRef_of entry = (case getProp entry ''from'' of Some (JStr s) \<Rightarrow> s | _ \<Rightarrow> [])"

text \<open>
  \<^verbatim>\<open>const dstRefsRaw = entry.to ?? entry.targets\<close>: the right operand is taken when the
  left one is \<^verbatim>\<open>null\<close> or \<^verbatim>\<open>undefined\<close>.
\<close>

definition dstRefsRaw_of :: "json \<Rightarrow> json option" where
  "dstRefsRaw_of entry =
     (case getProp entry ''to'' of
        None \<Rightarrow> getProp entry ''targets''
      | Some JNull \<Rightarrow> getProp entry ''targets''
      | Some v \<Rightarrow> Some v)"

text \<open>
  \<^verbatim>\<open>typeof dstRefsRaw === 'string' ? [dstRefsRaw] : Array.isArray(dstRefsRaw) ? dstRefsRaw : []\<close>
\<close>

definition dstRefs_of :: "json \<Rightarrow> json list" where
  "dstRefs_of entry =
     (case dstRefsRaw_of entry of
        Some (JStr s) \<Rightarrow> [JStr s]
      | Some (JArr xs) \<Rightarrow> xs
      | _ \<Rightarrow> [])"

definition mk_edge :: "nat \<Rightarrow> string \<Rightarrow> string \<Rightarrow> parsed_ref \<Rightarrow> parsed_ref \<Rightarrow> edge" where
  "mk_edge edgeSeq srcRef dstRef src dst =
     \<lparr>edge_id = ''w-'' @ show_nat edgeSeq @ ''-'' @ srcRef @ ''->'' @ dstRef,
      source = module src,
      sourceHandle = Some (port src),
      target = module dst,
      targetHandle = Some (port dst)\<rparr>"

text \<open>
  The inner loop over the destination references of one entry. The loop state is the
  array \<open>edges\<close> built so far and the counter \<open>edgeSeq\<close>.
\<close>

fun dst_loop :: "string \<Rightarrow> parsed_ref \<Rightarrow> json list \<Rightarrow> edge list \<times> nat \<Rightarrow> edge list \<times> nat" where
  "dst_loop srcRef src [] st = st"
| "dst_loop srcRef src (d # ds) (edges, edgeSeq) =
     (case d of
        JStr dstRef \<Rightarrow>
          (case parseRef dstRef of
             None \<Rightarrow> dst_loop srcRef src ds (edges, edgeSeq)
           | Some dst \<Rightarrow>
               dst_loop srcRef src ds
                 (edges @ [mk_edge (edgeSeq + 1) srcRef dstRef src dst], edgeSeq + 1))
      | _ \<Rightarrow> dst_loop srcRef src ds (edges, edgeSeq))"

text \<open>The outer loop over the entries of the wiring.\<close>

fun entry_loop :: "json list \<Rightarrow> edge list \<times> nat \<Rightarrow> edge list \<times> nat" where
  "entry_loop [] st = st"
| "entry_loop (entry # rest) st =
     (case parseRef (srcRef_of entry) of
        None \<Rightarrow> entry_loop rest st
      | Some src \<Rightarrow> entry_loop rest (dst_loop (srcRef_of entry) src (dstRefs_of entry) st))"

definition wiringToEdges :: "json \<Rightarrow> error + edge list" where
  "wiringToEdges rawWiring =
     (case normalizeWiring rawWiring of
        Inl e \<Rightarrow> Inl e
      | Inr wiring \<Rightarrow> Inr (fst (entry_loop wiring ([], 0))))"

text \<open>
  The \<open>edges\<close> component of \<open>wiringToFlow\<close>: its loop over the (already normalised)
  wiring is the loop of \<open>wiringToEdges\<close>; the statements it adds only record module ids
  and port names for the nodes and never touch \<open>edges\<close> or \<open>edgeSeq\<close>.
\<close>

definition wiringToFlow_edges :: "json list \<Rightarrow> edge list" where
  "wiringToFlow_edges wiring = fst (entry_loop wiring ([], 0))"

section \<open>From the edges back to the wiring\<close>

text \<open>
  \<^verbatim>\<open>grouped\<close> is a \<^verbatim>\<open>Map<string, Set<string>>\<close>. Both keep insertion order, so the
  map is an association list with distinct keys and each set a list without duplicates.
\<close>

type_synonym grouped = "(string \<times> string list) list"

definition set_add :: "string \<Rightarrow> string list \<Rightarrow> string list" where
  "set_add x xs = (if x \<in> set xs then xs else xs @ [x])"

definition grouped_has :: "grouped \<Rightarrow> string \<Rightarrow> bool" where
  "grouped_has g k = (k \<in> set (map fst g))"

text \<open>
  \<^verbatim>\<open>if (!grouped.has(from)) grouped.set(from, new Set()); grouped.get(from)!.add(to)\<close>
\<close>

definition grouped_add :: "string \<Rightarrow> string \<Rightarrow> grouped \<Rightarrow> grouped" where
  "grouped_add from_ref to_ref g =
     (let g' = (if \<not> grouped_has g from_ref then g @ [(from_ref, [])] else g) in
      map (\<lambda>(k, targets). if k = from_ref then (k, set_add to_ref targets) else (k, targets)) g')"

text \<open>\<^verbatim>\<open>!h\<close> for an optional string: absent or empty.\<close>

fun falsy_handle :: "string option \<Rightarrow> bool" where
  "falsy_handle None = True"
| "falsy_handle (Some s) = (s = [])"

definition group_step :: "grouped \<Rightarrow> edge \<Rightarrow> grouped" where
  "group_step g e =
     (if falsy_handle (sourceHandle e) \<or> falsy_handle (targetHandle e) then g
      else grouped_add (source e @ ''.'' @ the (sourceHandle e))
                       (target e @ ''.'' @ the (targetHandle e)) g)"

text \<open>
  The result lists \<^verbatim>\<open>{ from, to }\<close> objects, modelled as pairs. The entries are sorted
  with the comparator \<^verbatim>\<open>a.localeCompare(b)\<close> on the keys. \<^verbatim>\<open>localeCompare\<close> belongs to the
  platform and depends on the locale, so it is a parameter \<open>cmp\<close>: any consistent
  comparator (a linear quasi-order, possibly with ties between different strings).
  \<^verbatim>\<open>Array.prototype.sort\<close> is stable, as is \<^const>\<open>Sorting_Algorithms.sort\<close>. The
  targets are sorted with no comparator, that is by code units.
\<close>

type_synonym wiring_out = "(string \<times> string list) list"

definition edgesToWiring :: "string comparator \<Rightarrow> edge list \<Rightarrow> wiring_out" where
  "edgesToWiring cmp edges =
     map (\<lambda>(from_ref, targets). (from_ref, Sorting_Algorithms.sort default targets))
       (Sorting_Algorithms.sort (key fst cmp) (foldl group_step [] edges))"

text \<open>
  The wiring produced by \<open>edgesToWiring\<close> as a value: an array of objects with a string
  \<^verbatim>\<open>from\<close> and an array of strings \<^verbatim>\<open>to\<close>.
\<close>

definition wiring_json :: "wiring_out \<Rightarrow> json" where
  "wiring_json w =
     JArr (map (\<lambda>(from_ref, targets).
                  JObj [(''from'', JStr from_ref), (''to'', JArr (map JStr targets))]) w)"

text \<open>The composition used when a raw draft is applied.\<close>

definition normalizeRaw :: "string comparator \<Rightarrow> json \<Rightarrow> error + wiring_out" where
  "normalizeRaw cmp raw =
     (case wiringToEdges raw of
        Inl e \<Rightarrow> Inl e
      | Inr edges \<Rightarrow> Inr (edgesToWiring cmp edges))"

text \<open>The list of (source reference, destination reference) pairs a wiring stands for.\<close>

definition wiring_pairs :: "wiring_out \<Rightarrow> (string \<times> string) list" where
  "wiring_pairs w = concat (map (\<lambda>(from_ref, targets). map (Pair from_ref) targets) w)"

section \<open>Applying the raw JSON draft\<close>

text \<open>
  What \<open>applyRawJson\<close> takes from the platform and the application:
  \<^verbatim>\<open>JSON.parse\<close> (a syntax error is \<open>Inl\<close>), the two uses of \<^verbatim>\<open>JSON.stringify\<close>,
  \<^verbatim>\<open>Date.now()\<close>, \<^verbatim>\<open>localeCompare\<close>, \<^verbatim>\<open>actions.setControls\<close> (a patch applied to the
  application's control store, of a type \<open>'c\<close> left open) and \<^verbatim>\<open>localStorage.setItem\<close>,
  which may throw (\<open>None\<close>).
\<close>

record 'c platform =
  json_parse :: "string \<Rightarrow> error + json"
  stringify_wiring :: "wiring_out \<Rightarrow> string"
  stringify_stored :: "string \<Rightarrow> nat \<Rightarrow> string"
  date_now :: nat
  localeCompare :: "string comparator"
  setControls :: "(string \<times> string) list \<Rightarrow> 'c \<Rightarrow> 'c"
  setItem :: "string \<Rightarrow> string \<Rightarrow> (string \<rightharpoonup> string) \<Rightarrow> (string \<rightharpoonup> string) option"

text \<open>The state the callback reads and writes.\<close>

record 'c editor_state =
  rawDraft :: string
  storageKey :: string
  lastAppliedRef :: string
  controls :: 'c
  parseError :: "string option"
  showRaw :: bool
  isExpanded :: bool
  localStorage :: "string \<rightharpoonup> string"

text \<open>The \<^verbatim>\<open>catch\<close> block.\<close>

definition on_apply_error :: "error \<Rightarrow> 'c editor_state \<Rightarrow> 'c editor_state" where
  "on_apply_error err s = s\<lparr>parseError := Some (message err), isExpanded := True, showRaw := True\<rparr>"

definition applyRawJson :: "'c platform \<Rightarrow> 'c editor_state \<Rightarrow> 'c editor_state" where
  "applyRawJson pf s =
     (case json_parse pf (rawDraft s) of
        Inl err \<Rightarrow> on_apply_error err s
      | Inr parsed \<Rightarrow>
          (case wiringToEdges parsed of
             Inl err \<Rightarrow> on_apply_error err s
           | Inr edges \<Rightarrow>
               (let nextText = stringify_wiring pf (edgesToWiring (localeCompare pf) edges);
                    s1 = s\<lparr>lastAppliedRef := nextText,
                           controls := setControls pf [(''wiring'', nextText)] (controls s),
                           parseError := None,
                           showRaw := False\<rparr>
                in case setItem pf (storageKey s1) (stringify_stored pf nextText (date_now pf))
                          (localStorage s1) of
                     None \<Rightarrow> s1
                   | Some st \<Rightarrow> s1\<lparr>localStorage := st\<rparr>)))"

section \<open>Lifecycle events and the fixed-step solver\<close>

datatype BioWorldEvent = LOADED | BEFORE_SIMULATION | STEP | AFTER_SIMULATION

text \<open>
  The payload of a \<open>STEP\<close> event: the zero-based index \<^verbatim>\<open>i\<close> and the accumulated time
  \<^verbatim>\<open>t\<close>. The type \<open>'t\<close> of times is left open, and so is its addition: the solver is
  given the addition \<open>add\<close> and the initial time \<open>zero\<close>, which for the program are the
  addition of floating-point numbers and \<^verbatim>\<open>0.0\<close>. A call of \<^verbatim>\<open>emit\<close> is recorded as an
  element of a list.
\<close>

record 't step_payload =
  step_i :: nat
  step_t :: 't

type_synonym 't emitted = "BioWorldEvent \<times> 't step_payload option"

record 't summary =
  sum_steps :: nat
  sum_time :: 't

text \<open>
  Modelled from the spec: the body of \<^verbatim>\<open>FixedStepSolver.simulate\<close> is not among the
  sources (only its documentation is). The spec: the solver invokes
  \<^verbatim>\<open>emit(STEP, payload)\<close> once per step with a zero-based index and the accumulated
  time, advances \<^verbatim>\<open>t += dt\<close> each step with no adaptation, and returns
  \<^verbatim>\<open>{steps, time}\<close>. The loop runs \<open>i\<close> from \<open>0\<close> while \<open>i < steps\<close>.
\<close>

function fixed_loop ::
  "('t \<Rightarrow> 't \<Rightarrow> 't) \<Rightarrow> nat \<Rightarrow> 't \<Rightarrow> nat \<Rightarrow> 't \<Rightarrow> 't emitted list \<Rightarrow> 't emitted list \<times> 't" where
  "fixed_loop add steps dt i t out =
     (if i < steps
      then fixed_loop add steps dt (Suc i) (add t dt)
             (out @ [(STEP, Some \<lparr>step_i = i, step_t = add t dt\<rparr>)])
      else (out, t))"
  by pat_completeness auto
termination
  by (relation "measure (\<lambda>(add, steps, dt, i, t, out). steps - i)") auto

declare fixed_loop.simps [simp del]

definition FixedStepSolver_simulate ::
  "('t \<Rightarrow> 't \<Rightarrow> 't) \<Rightarrow> 't \<Rightarrow> nat \<Rightarrow> 't \<Rightarrow> 't emitted list \<times> 't summary" where
  "FixedStepSolver_simulate add zero steps dt =
     (let (out, t) = fixed_loop add steps dt 0 zero [] in (out, \<lparr>sum_steps = steps, sum_time = t\<rparr>))"

section \<open>The world orchestrator\<close>

text \<open>
  Modelled from the spec: the body of \<^verbatim>\<open>BioWorld.simulate\<close> is not among the sources
  (its documentation lists the field \<^verbatim>\<open>_loaded_emitted\<close>). The spec:
  \<^verbatim>\<open>Idle -> (first simulate call) -> emits LOADED -> BEFORE_SIMULATION -> STEP x N ->
  AFTER_SIMULATION -> Idle\<close>; subsequent calls skip \<open>LOADED\<close> (already emitted) and repeat
  the rest. The world forwards every event of the solver to its listeners; the list
  returned is what one listener observes. The solver is a parameter of the world.
\<close>

type_synonym 't solver = "nat \<Rightarrow> 't \<Rightarrow> 't emitted list \<times> 't summary"

record world =
  loaded_emitted :: bool

definition world_simulate ::
  "'t solver \<Rightarrow> world \<Rightarrow> nat \<Rightarrow> 't \<Rightarrow> 't emitted list \<times> 't summary \<times> world" where
  "world_simulate sol w steps dt =
     (let pre = (if loaded_emitted w then [] else [(LOADED, None)]);
          w' = w\<lparr>loaded_emitted := True\<rparr>;
          (stepped, result) = sol steps dt
      in (pre @ [(BEFORE_SIMULATION, None)] @ stepped @ [(AFTER_SIMULATION, None)], result, w'))"

text \<open>Consecutive \<^verbatim>\<open>simulate\<close> calls on one world; the events observed, in order.\<close>

fun simulate_all :: "'t solver \<Rightarrow> world \<Rightarrow> (nat \<times> 't) list \<Rightarrow> 't emitted list \<times> world" where
  "simulate_all sol w [] = ([], w)"
| "simulate_all sol w ((steps, dt) # calls) =
     (let (evs, result, w') = world_simulate sol w steps dt;
          (rest, w'') = simulate_all sol w' calls
      in (evs @ rest, w''))"

definition new_world :: world where
  "new_world = \<lparr>loaded_emitted = False\<rparr>"

definition count_event :: "BioWorldEvent \<Rightarrow> 't emitted list \<Rightarrow> nat" where
  "count_event ev evs = length (filter (\<lambda>e. fst e = ev) evs)"

section \<open>Reading edges as reference pairs\<close>

text \<open>
  The pair of reference strings \<open>edgesToWiring\<close> forms for an edge, when it does not skip
  the edge, and the pairs of a list of edges in the order in which the edges were added.
\<close>

definition edge_refs :: "edge \<Rightarrow> (string \<times> string) option" where
  "edge_refs e =
     (if falsy_handle (sourceHandle e) \<or> falsy_handle (targetHandle e) then None
      else Some (source e @ ''.'' @ the (sourceHandle e), target e @ ''.'' @ the (targetHandle e)))"

definition edges_pairs :: "edge list \<Rightarrow> (string \<times> string) list" where
  "edges_pairs edges = List.map_filter edge_refs edges"

text \<open>
  The reference pairs one wiring entry contributes to the edges: none when its source
  reference does not parse, otherwise one per destination that is a string and parses.
\<close>

definition valid_dsts :: "json list \<Rightarrow> string list" where
  "valid_dsts ds =
     concat (map (\<lambda>d. case d of JStr s \<Rightarrow> (if parseRef s = None then [] else [s]) | _ \<Rightarrow> []) ds)"

definition entry_pairs :: "json \<Rightarrow> (string \<times> string) list" where
  "entry_pairs entry =
     (if parseRef (srcRef_of entry) = None then []
      else map (Pair (srcRef_of entry)) (valid_dsts (dstRefs_of entry)))"

text \<open>
  The shape of the map \<^verbatim>\<open>grouped\<close> at every point of the loop of \<open>edgesToWiring\<close>:
  distinct keys, and each set of targets non-empty and without duplicates.
\<close>

definition grouped_ok :: "grouped \<Rightarrow> bool" where
  "grouped_ok g = (distinct (map fst g) \<and> (\<forall>(k, ts) \<in> set g. distinct ts \<and> ts \<noteq> []))"

section \<open>Properties of the reference parser\<close>

lemma indexOf_takeWhile:
  "indexOf s c = (if c \<in> set s then int (length (takeWhile (\<lambda>x. x \<noteq> c) s)) else - 1)"
  by (induction s) (auto simp: Let_def)

lemma indexOf_append_dot:
  "c \<notin> set a \<Longrightarrow> indexOf (a @ c # p) c = int (length a)"
  by (induction a) (auto simp: Let_def)

lemma take_length_takeWhile:
  "take (length (takeWhile P s)) s = takeWhile P s"
  by (induction s) auto

lemma drop_length_takeWhile:
  "drop (length (takeWhile P s)) s = dropWhile P s"
  by (induction s) auto

lemma length_takeWhile_less:
  "c \<in> set s \<Longrightarrow> length (takeWhile (\<lambda>x. x \<noteq> c) s) < length s"
  by (induction s) auto

lemma dropWhile_tl_empty_iff:
  "c \<in> set s \<Longrightarrow>
     (tl (dropWhile (\<lambda>x. x \<noteq> c) s) = []) = (Suc (length (takeWhile (\<lambda>x. x \<noteq> c) s)) = length s)"
  by (induction s) auto

lemma parseRef_join:
  assumes "a \<noteq> []" "CHR ''.'' \<notin> set a" "p \<noteq> []"
  shows "parseRef (a @ CHR ''.'' # p) = Some \<lparr>module = a, port = p\<rparr>"
proof -
  have n: "nat (int (length a) + 1) = Suc (length a)" by simp
  show ?thesis
    using assms unfolding parseRef_def Let_def indexOf_append_dot [OF assms(2)] n
    by (cases p) simp_all
qed

lemma parseRef_SomeD:
  assumes "parseRef s = Some r"
  shows "module r \<noteq> [] \<and> CHR ''.'' \<notin> set (module r) \<and> port r \<noteq> []
         \<and> module r @ CHR ''.'' # port r = s"
proof -
  let ?k = "length (takeWhile (\<lambda>x. x \<noteq> CHR ''.'') s)"
  from assms have mem: "CHR ''.'' \<in> set s"
    by (auto simp: parseRef_def indexOf_takeWhile Let_def split: if_splits)
  then have idx: "indexOf s (CHR ''.'') = int ?k" by (simp add: indexOf_takeWhile)
  from assms have k: "0 < ?k" "Suc ?k < length s"
    and r: "r = \<lparr>module = take ?k s, port = drop (Suc ?k) s\<rparr>"
    unfolding parseRef_def Let_def idx by (auto split: if_splits simp: nat_add_distrib)
  have dk: "drop ?k s = dropWhile (\<lambda>x. x \<noteq> CHR ''.'') s"
    by (rule drop_length_takeWhile)
  have hd: "dropWhile (\<lambda>x. x \<noteq> CHR ''.'') s = CHR ''.'' # drop (Suc ?k) s"
    using mem by (induction s) auto
  have nd: "CHR ''.'' \<notin> set (takeWhile (\<lambda>x. x \<noteq> CHR ''.'') s)"
    by (induction s) auto
  have "take ?k s @ drop ?k s = s" by (rule append_take_drop_id)
  then have join: "take ?k s @ CHR ''.'' # drop (Suc ?k) s = s"
    using dk hd by metis
  show ?thesis
    using k nd join unfolding r by (simp add: take_length_takeWhile)
qed

text \<open>
  Claim C1. For every string \<open>s\<close>, \<open>parseRef\<close> returns no result exactly when \<open>s\<close> has no
  \<open>'.'\<close>, or the text before the first \<open>'.'\<close> is empty, or the text after the first \<open>'.'\<close>
  is empty; otherwise it returns the text before the first \<open>'.'\<close> as the module alias and
  the remainder as the port.
\<close>

theorem parseRef_fails_iff:
  "parseRef s =
     (if CHR ''.'' \<notin> set s
         \<or> takeWhile (\<lambda>x. x \<noteq> CHR ''.'') s = []
         \<or> tl (dropWhile (\<lambda>x. x \<noteq> CHR ''.'') s) = []
      then None
      else Some \<lparr>module = takeWhile (\<lambda>x. x \<noteq> CHR ''.'') s,
                 port = tl (dropWhile (\<lambda>x. x \<noteq> CHR ''.'') s)\<rparr>)"
proof (cases "CHR ''.'' \<in> set s")
  case False
  then show ?thesis by (simp add: parseRef_def indexOf_takeWhile)
next
  case True
  let ?k = "length (takeWhile (\<lambda>x. x \<noteq> CHR ''.'') s)"
  have lt: "?k < length s" using True by (rule length_takeWhile_less)
  have idx: "indexOf s (CHR ''.'') = int ?k" using True by (simp add: indexOf_takeWhile)
  have e: "(tl (dropWhile (\<lambda>x. x \<noteq> CHR ''.'') s) = []) = (Suc ?k = length s)"
    using True by (rule dropWhile_tl_empty_iff)
  have d: "drop (Suc ?k) s = tl (dropWhile (\<lambda>x. x \<noteq> CHR ''.'') s)"
    by (simp add: drop_Suc drop_tl drop_length_takeWhile tl_drop)
  have n: "nat (int ?k + 1) = Suc ?k" by simp
  show ?thesis
    unfolding parseRef_def Let_def idx n d e
    using True lt by (auto simp: take_length_takeWhile)
qed

theorem parseRef_fails_iff_witness:
  "parseRef ''eye.retina'' = Some \<lparr>module = ''eye'', port = ''retina''\<rparr>
   \<and> parseRef ''eye.'' = None
   \<and> parseRef ''.retina'' = None
   \<and> parseRef ''eye'' = None"
  using parseRef_fails_iff [of "''eye.retina''"] parseRef_fails_iff [of "''eye.''"]
        parseRef_fails_iff [of "''.retina''"] parseRef_fails_iff [of "''eye''"]
  by simp

text \<open>
  Claim C2, as stated, fails: the direction token is not stripped. Parsing
  \<open>eye.out.visual_stream\<close> gives the port \<open>out.visual_stream\<close>, which is not the port
  \<open>visual_stream\<close> obtained from \<open>eye.visual_stream\<close>.
\<close>

theorem parseRef_direction_counterexample:
  "parseRef ''eye.out.visual_stream'' = Some \<lparr>module = ''eye'', port = ''out.visual_stream''\<rparr>
   \<and> parseRef ''eye.visual_stream'' = Some \<lparr>module = ''eye'', port = ''visual_stream''\<rparr>
   \<and> parseRef ''eye.out.visual_stream'' \<noteq> parseRef ''eye.visual_stream''"
  by (simp add: parseRef_def Let_def)

text \<open>
  Claim C2, amended. For every non-empty alias \<open>a\<close> without \<open>'.'\<close> and every non-empty port
  name \<open>p\<close>, parsing \<open>a.out.p\<close>, \<open>a.in.p\<close> and \<open>a.p\<close> yields the same module alias \<open>a\<close>, and
  the direction token stays in the port: the ports are \<open>out.p\<close>, \<open>in.p\<close> and \<open>p\<close>.
\<close>

theorem parseRef_keeps_direction_token:
  assumes "a \<noteq> []" and "CHR ''.'' \<notin> set a" and "p \<noteq> []"
  shows "parseRef (a @ ''.out.'' @ p) = Some \<lparr>module = a, port = ''out.'' @ p\<rparr>
       \<and> parseRef (a @ ''.in.'' @ p) = Some \<lparr>module = a, port = ''in.'' @ p\<rparr>
       \<and> parseRef (a @ ''.'' @ p) = Some \<lparr>module = a, port = p\<rparr>"
  using parseRef_join [OF assms(1,2), of "''out.'' @ p"]
        parseRef_join [OF assms(1,2), of "''in.'' @ p"]
        parseRef_join [OF assms]
  by simp

theorem parseRef_keeps_direction_token_witness:
  "''eye'' \<noteq> [] \<and> CHR ''.'' \<notin> set ''eye'' \<and> ''retina'' \<noteq> []
   \<and> parseRef (''eye'' @ ''.out.'' @ ''retina'') = Some \<lparr>module = ''eye'', port = ''out.'' @ ''retina''\<rparr>
   \<and> parseRef (''eye'' @ ''.in.'' @ ''retina'') = Some \<lparr>module = ''eye'', port = ''in.'' @ ''retina''\<rparr>
   \<and> parseRef (''eye'' @ ''.'' @ ''retina'') = Some \<lparr>module = ''eye'', port = ''retina''\<rparr>"
proof -
  have h1: "''eye'' \<noteq> []" by simp
  have h2: "CHR ''.'' \<notin> set ''eye''" by simp
  have h3: "''retina'' \<noteq> []" by simp
  show ?thesis
    using h1 h2 h3 parseRef_keeps_direction_token [OF h1 h2 h3] by blast
qed

section \<open>Properties of the normalisation of the raw wiring\<close>

text \<open>
  Claim C10. \<open>normalizeWiring\<close> throws the error with the message
  \<open>Wiring must be a JSON array.\<close> exactly when its argument is not an array; for an array
  it returns, in the original order and unmodified, exactly the entries that are non-null
  objects (in the sense of \<^verbatim>\<open>typeof\<close>, which calls arrays objects too).
\<close>

theorem normalizeWiring_spec:
  "normalizeWiring raw =
     (case raw of
        JArr entries \<Rightarrow> Inr (filter (\<lambda>entry. entry \<noteq> JNull \<and> typeof entry = TObject) entries)
      | _ \<Rightarrow> Inl WiringNotArray)
   \<and> message WiringNotArray = ''Wiring must be a JSON array.''"
proof -
  have t: "(truthy e \<and> typeof e = TObject) = (e \<noteq> JNull \<and> typeof e = TObject)" for e
    by (cases e) simp_all
  show ?thesis
    by (cases raw) (simp_all add: normalizeWiring_def t)
qed

section \<open>Properties of the edge builder\<close>

lemma dst_loop_append:
  "dst_loop srcRef src (ds1 @ ds2) st = dst_loop srcRef src ds2 (dst_loop srcRef src ds1 st)"
proof (induction ds1 arbitrary: st)
  case Nil
  then show ?case by simp
next
  case (Cons d ds1)
  obtain edges edgeSeq where st: "st = (edges, edgeSeq)" by (cases st)
  show ?case unfolding st
    by (cases d) (simp_all add: Cons.IH split: option.splits)
qed

lemma dst_loop_skip:
  "parseRef d = None \<Longrightarrow>
     dst_loop srcRef src (ds1 @ JStr d # ds2) st = dst_loop srcRef src (ds1 @ ds2) st"
proof -
  assume bad: "parseRef d = None"
  obtain edges edgeSeq where st: "dst_loop srcRef src ds1 st = (edges, edgeSeq)"
    by (cases "dst_loop srcRef src ds1 st")
  show ?thesis
    by (simp add: dst_loop_append st bad)
qed

lemma entry_loop_append:
  "entry_loop (es1 @ es2) st = entry_loop es2 (entry_loop es1 st)"
  by (induction es1 arbitrary: st) (simp_all split: option.splits)

lemma entry_loop_skip:
  "parseRef (srcRef_of entry) = None \<Longrightarrow>
     entry_loop (pre @ entry # post) st = entry_loop (pre @ post) st"
  by (simp add: entry_loop_append)

lemma wiringToEdges_array:
  "wiringToEdges (JArr entries) =
     Inr (fst (entry_loop (filter (\<lambda>entry. truthy entry \<and> typeof entry = TObject) entries) ([], 0)))"
  by (simp add: wiringToEdges_def normalizeWiring_def)

text \<open>
  Claim C6, amended. Building the edge set never reports a malformed reference: for an
  array it always returns edges; a wiring entry whose \<^verbatim>\<open>from\<close> reference fails to parse is
  skipped without producing an edge (the result is that of the wiring without the entry),
  and a destination reference that fails to parse is skipped in the same way.
\<close>

theorem wiringToEdges_skips_malformed:
  "(\<exists>edges. wiringToEdges (JArr entries) = Inr edges)
   \<and> (parseRef (srcRef_of entry) = None \<longrightarrow>
        wiringToEdges (JArr (pre @ entry # post)) = wiringToEdges (JArr (pre @ post)))
   \<and> (parseRef d = None \<longrightarrow>
        wiringToEdges (JArr (pre @ JObj [(''from'', JStr s), (''to'', JArr (ds1 @ JStr d # ds2))] # post))
        = wiringToEdges (JArr (pre @ JObj [(''from'', JStr s), (''to'', JArr (ds1 @ ds2))] # post)))"
proof (intro conjI impI)
  show "\<exists>edges. wiringToEdges (JArr entries) = Inr edges"
    by (simp add: wiringToEdges_array)
next
  assume bad: "parseRef (srcRef_of entry) = None"
  show "wiringToEdges (JArr (pre @ entry # post)) = wiringToEdges (JArr (pre @ post))"
    unfolding wiringToEdges_array
    by (simp add: entry_loop_skip [OF bad])
next
  assume bad: "parseRef d = None"
  let ?e1 = "JObj [(''from'', JStr s), (''to'', JArr (ds1 @ JStr d # ds2))]"
  let ?e2 = "JObj [(''from'', JStr s), (''to'', JArr (ds1 @ ds2))]"
  have src: "srcRef_of ?e1 = s" "srcRef_of ?e2 = s"
    by (simp_all add: srcRef_of_def)
  have dst: "dstRefs_of ?e1 = ds1 @ JStr d # ds2" "dstRefs_of ?e2 = ds1 @ ds2"
    by (simp_all add: dstRefs_of_def dstRefsRaw_of_def)
  have one: "entry_loop [?e1] st = entry_loop [?e2] st" for st
    by (simp add: src dst dst_loop_skip [OF bad] split: option.splits)
  have "entry_loop (xs @ ?e1 # ys) st = entry_loop (xs @ ?e2 # ys) st" for xs ys st
    using one [of "entry_loop xs st"]
    by (simp add: entry_loop_append split: option.splits)
  then show "wiringToEdges (JArr (pre @ ?e1 # post)) = wiringToEdges (JArr (pre @ ?e2 # post))"
    unfolding wiringToEdges_array by simp
qed

theorem wiringToEdges_skips_malformed_witness:
  "(\<exists>edges. wiringToEdges (JArr [JObj [(''from'', JStr ''eye''), (''to'', JArr [JStr ''lgn.retina''])]]) = Inr edges)
   \<and> parseRef (srcRef_of (JObj [(''from'', JStr ''eye''), (''to'', JArr [JStr ''lgn.retina''])])) = None
   \<and> wiringToEdges (JArr ([] @ JObj [(''from'', JStr ''eye''), (''to'', JArr [JStr ''lgn.retina''])] # []))
       = wiringToEdges (JArr ([] @ []))
   \<and> parseRef ''lgn'' = None
   \<and> wiringToEdges (JArr ([] @ JObj [(''from'', JStr ''eye.out''), (''to'', JArr ([] @ JStr ''lgn'' # []))] # []))
       = wiringToEdges (JArr ([] @ JObj [(''from'', JStr ''eye.out''), (''to'', JArr ([] @ []))] # []))"
proof -
  have h1: "parseRef (srcRef_of (JObj [(''from'', JStr ''eye''), (''to'', JArr [JStr ''lgn.retina''])])) = None"
    by (simp add: srcRef_of_def parseRef_def)
  have h2: "parseRef ''lgn'' = None"
    by (simp add: parseRef_def)
  show ?thesis
    using h1 h2
      wiringToEdges_skips_malformed [of "[JObj [(''from'', JStr ''eye''), (''to'', JArr [JStr ''lgn.retina''])]]"
        "JObj [(''from'', JStr ''eye''), (''to'', JArr [JStr ''lgn.retina''])]" "[]" "[]"
        "''lgn''" "''eye.out''" "[]" "[]"]
    by blast
qed

text \<open>
  Claim C6, as stated, fails: the entry from \<open>eye\<close> (no \<open>'.'\<close>) to \<open>lgn.in.retina\<close> is
  skipped and the edge set is built without an error, by \<open>wiringToEdges\<close> and by the loop
  of \<open>wiringToFlow\<close>; so is the destination \<open>lgn\<close>.
\<close>

theorem wiringToEdges_malformed_counterexample:
  "parseRef ''eye'' = None
   \<and> wiringToEdges (JArr [JObj [(''from'', JStr ''eye''), (''to'', JArr [JStr ''lgn.in.retina''])]]) = Inr []
   \<and> wiringToFlow_edges [JObj [(''from'', JStr ''eye''), (''to'', JArr [JStr ''lgn.in.retina''])]] = []
   \<and> parseRef ''lgn'' = None
   \<and> wiringToEdges (JArr [JObj [(''from'', JStr ''eye.out.visual_stream''), (''to'', JArr [JStr ''lgn''])]]) = Inr []"
  by (simp add: parseRef_def wiringToEdges_def wiringToFlow_edges_def normalizeWiring_def srcRef_of_def
      dstRefs_of_def dstRefsRaw_of_def Let_def)

section \<open>Properties of applying the raw draft\<close>

text \<open>
  Claim C5. When the raw draft does not parse, or parses to a value that does not
  normalise, \<open>applyRawJson\<close> commits nothing: the wiring control, the last applied text,
  the local storage and the draft are unchanged, and the error message is recorded (with
  the editor expanded and the raw view shown).
\<close>

theorem applyRawJson_atomic_on_failure:
  assumes "json_parse pf (rawDraft s) = Inl err
           \<or> (\<exists>parsed. json_parse pf (rawDraft s) = Inr parsed \<and> wiringToEdges parsed = Inl err)"
  shows "applyRawJson pf s = s\<lparr>parseError := Some (message err), isExpanded := True, showRaw := True\<rparr>
       \<and> controls (applyRawJson pf s) = controls s
       \<and> lastAppliedRef (applyRawJson pf s) = lastAppliedRef s
       \<and> localStorage (applyRawJson pf s) = localStorage s
       \<and> rawDraft (applyRawJson pf s) = rawDraft s
       \<and> parseError (applyRawJson pf s) = Some (message err)"
proof -
  have "applyRawJson pf s = on_apply_error err s"
    using assms by (auto simp: applyRawJson_def)
  then show ?thesis
    by (simp add: on_apply_error_def)
qed

theorem applyRawJson_atomic_on_failure_witness:
  "(let pf = \<lparr>json_parse = (\<lambda>txt. if txt = ''{}'' then Inr (JObj []) else Inl (SyntaxError ''Unexpected token'')),
              stringify_wiring = (\<lambda>w. ''[]''), stringify_stored = (\<lambda>w n. w), date_now = 0,
              localeCompare = default,
              setControls = (\<lambda>patch c. c @ patch),
              setItem = (\<lambda>k v st. Some (st(k \<mapsto> v)))\<rparr>;
        s = \<lparr>rawDraft = ''{}'', storageKey = ''simui:wiring:default'', lastAppliedRef = ''[]'',
             controls = [(''wiring'', ''[]'')], parseError = None, showRaw = True, isExpanded = False,
             localStorage = Map.empty\<rparr>
    in (\<exists>parsed. json_parse pf (rawDraft s) = Inr parsed \<and> wiringToEdges parsed = Inl WiringNotArray)
       \<and> controls (applyRawJson pf s) = [(''wiring'', ''[]'')]
       \<and> lastAppliedRef (applyRawJson pf s) = ''[]''
       \<and> localStorage (applyRawJson pf s) = Map.empty
       \<and> parseError (applyRawJson pf s) = Some ''Wiring must be a JSON array.'')"
proof -
  define pf :: "(string \<times> string) list platform" where
    "pf = \<lparr>json_parse = (\<lambda>txt. if txt = ''{}'' then Inr (JObj []) else Inl (SyntaxError ''Unexpected token'')),
              stringify_wiring = (\<lambda>w. ''[]''), stringify_stored = (\<lambda>w n. w), date_now = 0,
              localeCompare = default,
              setControls = (\<lambda>patch c. c @ patch),
              setItem = (\<lambda>k v st. Some (st(k \<mapsto> v)))\<rparr>"
  define s :: "(string \<times> string) list editor_state" where
    "s = \<lparr>rawDraft = ''{}'', storageKey = ''simui:wiring:default'', lastAppliedRef = ''[]'',
             controls = [(''wiring'', ''[]'')], parseError = None, showRaw = True, isExpanded = False,
             localStorage = Map.empty\<rparr>"
  have h: "\<exists>parsed. json_parse pf (rawDraft s) = Inr parsed \<and> wiringToEdges parsed = Inl WiringNotArray"
    by (simp add: pf_def s_def wiringToEdges_def normalizeWiring_def)
  then have h': "json_parse pf (rawDraft s) = Inl WiringNotArray
           \<or> (\<exists>parsed. json_parse pf (rawDraft s) = Inr parsed \<and> wiringToEdges parsed = Inl WiringNotArray)"
    by blast
  have "(\<exists>parsed. json_parse pf (rawDraft s) = Inr parsed \<and> wiringToEdges parsed = Inl WiringNotArray)
       \<and> controls (applyRawJson pf s) = [(''wiring'', ''[]'')]
       \<and> lastAppliedRef (applyRawJson pf s) = ''[]''
       \<and> localStorage (applyRawJson pf s) = Map.empty
       \<and> parseError (applyRawJson pf s) = Some ''Wiring must be a JSON array.''"
    using h applyRawJson_atomic_on_failure [OF h'] by (simp add: s_def)
  then show ?thesis
    unfolding Let_def pf_def s_def .
qed

section \<open>Properties of the grouping of edges\<close>

lemma group_step_refs:
  "group_step g e = (case edge_refs e of None \<Rightarrow> g | Some (f, t) \<Rightarrow> grouped_add f t g)"
  by (simp add: group_step_def edge_refs_def)

lemma edges_pairs_Cons:
  "edges_pairs (e # es) = (case edge_refs e of None \<Rightarrow> edges_pairs es | Some p \<Rightarrow> p # edges_pairs es)"
  by (simp add: edges_pairs_def map_filter_simps split: option.splits)

lemma edges_pairs_Nil: "edges_pairs [] = []"
  by (simp add: edges_pairs_def map_filter_simps)

lemma edges_pairs_append: "edges_pairs (xs @ ys) = edges_pairs xs @ edges_pairs ys"
  by (simp add: edges_pairs_def map_filter_def)

lemma foldl_group_step:
  "foldl group_step g es = foldl (\<lambda>g (f, t). grouped_add f t g) g (edges_pairs es)"
  by (induction es arbitrary: g)
     (auto simp: edges_pairs_Nil edges_pairs_Cons group_step_refs split: option.splits)

lemma set_wiring_pairs:
  "set (wiring_pairs w) = {(k, t). \<exists>ts. (k, ts) \<in> set w \<and> t \<in> set ts}"
  by (auto simp: wiring_pairs_def)

lemma keys_grouped_add:
  "map fst (grouped_add f t g) = (if f \<in> set (map fst g) then map fst g else map fst g @ [f])"
proof -
  have "map fst (map (\<lambda>(k, targets). if k = f then (k, set_add t targets) else (k, targets)) h) = map fst h" for h
    by (induction h) auto
  then show ?thesis
    by (simp add: grouped_add_def grouped_has_def Let_def)
qed

lemma set_set_add: "set (set_add t ts) = insert t (set ts)"
  by (auto simp: set_add_def)

lemma in_map_upd:
  "(k, ts) \<in> set (map (\<lambda>(k, targets). if k = f then (k, set_add t targets) else (k, targets)) h) \<longleftrightarrow>
     (if k = f then \<exists>ts0. (f, ts0) \<in> set h \<and> ts = set_add t ts0 else (k, ts) \<in> set h)"
proof (induction h)
  case Nil
  then show ?case by simp
next
  case (Cons a h)
  obtain k0 ts0 where a: "a = (k0, ts0)" by (cases a)
  show ?case
    unfolding list.map list.set insert_iff Cons.IH a prod.case
    by (cases "k = f"; cases "k0 = f") auto
qed

lemma in_grouped_add:
  "(k, ts) \<in> set (grouped_add f t g) \<longleftrightarrow>
     (if k = f
      then (if f \<in> fst ` set g then \<exists>ts0. (f, ts0) \<in> set g \<and> ts = set_add t ts0 else ts = [t])
      else (k, ts) \<in> set g)"
proof (cases "f \<in> fst ` set g")
  case True
  then have "grouped_add f t g = map (\<lambda>(k, targets). if k = f then (k, set_add t targets) else (k, targets)) g"
    by (simp add: grouped_add_def grouped_has_def)
  then show ?thesis
    using True by (simp only: in_map_upd if_True)
next
  case False
  then have no: "\<And>ts0. (f, ts0) \<notin> set g" by force
  from False have "grouped_add f t g =
      map (\<lambda>(k, targets). if k = f then (k, set_add t targets) else (k, targets)) (g @ [(f, [])])"
    by (simp add: grouped_add_def grouped_has_def)
  then show ?thesis
    using False no by (simp only: in_map_upd) (auto simp: set_add_def)
qed

lemma pairs_grouped_add:
  "set (wiring_pairs (grouped_add f t g)) = insert (f, t) (set (wiring_pairs g))"
proof (rule set_eqI)
  fix p :: "string \<times> string"
  obtain k x where p: "p = (k, x)" by (cases p)
  have mem: "p \<in> set (wiring_pairs w) \<longleftrightarrow> (\<exists>ts. (k, ts) \<in> set w \<and> x \<in> set ts)" for w
    by (simp add: p set_wiring_pairs)
  show "p \<in> set (wiring_pairs (grouped_add f t g)) \<longleftrightarrow> p \<in> insert (f, t) (set (wiring_pairs g))"
  proof (cases "k = f")
    case False
    then show ?thesis
      unfolding insert_iff mem by (simp add: in_grouped_add p)
  next
    case True
    show ?thesis
    proof (cases "f \<in> fst ` set g")
      case False
      then have no: "\<And>ts0. (f, ts0) \<notin> set g" by force
      have "(\<exists>ts. (k, ts) \<in> set (grouped_add f t g) \<and> x \<in> set ts) \<longleftrightarrow> x = t"
        using False by (simp add: in_grouped_add True)
      then show ?thesis
        unfolding insert_iff mem using no by (simp add: p True)
    next
      case in_g: True
      have "(\<exists>ts. (k, ts) \<in> set (grouped_add f t g) \<and> x \<in> set ts)
            \<longleftrightarrow> (\<exists>ts. (\<exists>ts0. (f, ts0) \<in> set g \<and> ts = set_add t ts0) \<and> x \<in> set ts)"
        using in_g by (simp add: in_grouped_add True)
      also have "\<dots> \<longleftrightarrow> (\<exists>ts0. (f, ts0) \<in> set g \<and> x \<in> insert t (set ts0))"
        using set_set_add by blast
      also have "\<dots> \<longleftrightarrow> x = t \<or> (\<exists>ts0. (f, ts0) \<in> set g \<and> x \<in> set ts0)"
        using in_g by force
      finally show ?thesis
        unfolding insert_iff mem by (simp add: p True)
    qed
  qed
qed
lemma grouped_ok_Nil: "grouped_ok []"
  by (simp add: grouped_ok_def)

lemma grouped_ok_grouped_add:
  assumes "grouped_ok g"
  shows "grouped_ok (grouped_add f t g)"
proof -
  have d: "distinct (map fst (grouped_add f t g))"
    using assms by (simp add: grouped_ok_def keys_grouped_add)
  have "distinct ts \<and> ts \<noteq> []" if "(k, ts) \<in> set (grouped_add f t g)" for k ts
    using that assms unfolding in_grouped_add grouped_ok_def
    by (auto simp: set_add_def split: if_splits)
  then show ?thesis
    using d unfolding grouped_ok_def by blast
qed

lemma grouped_ok_group_step: "grouped_ok g \<Longrightarrow> grouped_ok (group_step g e)"
  by (auto simp: group_step_refs grouped_ok_grouped_add split: option.splits)

lemma grouped_ok_foldl: "grouped_ok g \<Longrightarrow> grouped_ok (foldl group_step g es)"
  by (induction es arbitrary: g) (simp_all add: grouped_ok_group_step)

lemma pairs_group_step:
  "set (wiring_pairs (group_step g e)) = set (wiring_pairs g) \<union> set (edges_pairs [e])"
  by (auto simp: group_step_refs edges_pairs_Cons edges_pairs_Nil pairs_grouped_add split: option.splits)

lemma pairs_foldl:
  "set (wiring_pairs (foldl group_step g es)) = set (wiring_pairs g) \<union> set (edges_pairs es)"
proof (induction es arbitrary: g)
  case Nil
  then show ?case by (simp add: edges_pairs_Nil)
next
  case (Cons e es)
  have "edges_pairs (e # es) = edges_pairs [e] @ edges_pairs es"
    using edges_pairs_append [of "[e]" es] by simp
  then show ?case
    by (simp add: Cons.IH pairs_group_step Un_assoc)
qed

lemma grouped_add_present:
  assumes "distinct (map fst g)" and "(f, ts) \<in> set g" and "t \<in> set ts"
  shows "grouped_add f t g = g"
proof -
  have has: "grouped_has g f"
    using assms(2) by (force simp: grouped_has_def)
  have "(case x of (k, targets) \<Rightarrow> if k = f then (k, set_add t targets) else (k, targets)) = x"
    if "x \<in> set g" for x
  proof -
    obtain k ts' where x: "x = (k, ts')" by (cases x)
    show ?thesis
    proof (cases "k = f")
      case True
      then have "ts' = ts"
        using assms(1,2) that x by (metis eq_key_imp_eq_value)
      then show ?thesis
        using assms(3) by (simp add: x set_add_def)
    next
      case False
      then show ?thesis by (simp add: x)
    qed
  qed
  then have "map (\<lambda>(k, targets). if k = f then (k, set_add t targets) else (k, targets)) g = g"
    by (simp add: map_idI)
  then show ?thesis
    using has by (simp add: grouped_add_def)
qed

lemma distinct_wiring_pairs:
  assumes "distinct (map fst w)" and "\<forall>(k, ts) \<in> set w. distinct ts"
  shows "distinct (wiring_pairs w)"
  using assms
proof (induction w)
  case Nil
  then show ?case by (simp add: wiring_pairs_def)
next
  case (Cons a w)
  obtain k ts where a: "a = (k, ts)" by (cases a)
  have split: "wiring_pairs (a # w) = map (Pair k) ts @ wiring_pairs w"
    by (simp add: wiring_pairs_def a)
  have d1: "distinct (map (Pair k) ts)"
    using Cons.prems(2) by (simp add: a distinct_map inj_on_def)
  have d2: "distinct (wiring_pairs w)"
    using Cons by simp
  have "k \<notin> fst ` set w" using Cons.prems(1) by (simp add: a)
  then have d3: "set (map (Pair k) ts) \<inter> set (wiring_pairs w) = {}"
    unfolding set_wiring_pairs by force
  show ?case
    unfolding split using d1 d2 d3 by simp
qed

lemma sorted_key_map:
  "Sorting_Algorithms.sorted (key f cmp) xs = Sorting_Algorithms.sorted cmp (map f xs)"
proof (induction xs)
  case Nil
  then show ?case by simp
next
  case (Cons x xs)
  then show ?case by (cases xs) simp_all
qed

lemma sort_sorted_id:
  "Sorting_Algorithms.sorted cmp xs \<Longrightarrow> Sorting_Algorithms.sort cmp xs = xs"
  by (rule sort_eqI) simp_all

lemma keys_edgesToWiring:
  "map fst (edgesToWiring cmp edges) =
     map fst (Sorting_Algorithms.sort (key fst cmp) (foldl group_step [] edges))"
  by (simp add: edgesToWiring_def case_prod_unfold comp_def)

lemma set_edgesToWiring:
  "set (edgesToWiring cmp edges) =
     (\<lambda>(k, ts). (k, Sorting_Algorithms.sort default ts)) ` set (foldl group_step [] edges)"
  by (simp add: edgesToWiring_def)

lemma distinct_sort_iff:
  "distinct (Sorting_Algorithms.sort cmp xs) = distinct xs"
  by (rule mset_eq_imp_distinct_iff) simp

lemma grouped_ok_edgesToWiring: "grouped_ok (edgesToWiring cmp edges)"
proof -
  let ?G = "foldl group_step [] edges"
  have G: "grouped_ok ?G" by (rule grouped_ok_foldl [OF grouped_ok_Nil])
  have "mset (map fst (Sorting_Algorithms.sort (key fst cmp) ?G)) = mset (map fst ?G)"
    by simp
  then have "distinct (map fst (Sorting_Algorithms.sort (key fst cmp) ?G)) = distinct (map fst ?G)"
    by (rule mset_eq_imp_distinct_iff)
  then have d: "distinct (map fst (edgesToWiring cmp edges))"
    using G by (simp add: keys_edgesToWiring grouped_ok_def)
  have "distinct ts \<and> ts \<noteq> []" if "(k, ts) \<in> set (edgesToWiring cmp edges)" for k ts
  proof -
    from that obtain ts0 where "(k, ts0) \<in> set ?G" and ts: "ts = Sorting_Algorithms.sort default ts0"
      unfolding set_edgesToWiring by auto
    then have "distinct ts0 \<and> ts0 \<noteq> []" using G by (auto simp: grouped_ok_def)
    then have "distinct ts \<and> length ts \<noteq> 0"
      unfolding ts by (simp add: distinct_sort_iff)
    then show ?thesis by simp
  qed
  then show ?thesis
    using d unfolding grouped_ok_def by blast
qed

lemma pairs_edgesToWiring:
  "set (wiring_pairs (edgesToWiring cmp edges)) = set (edges_pairs edges)"
proof -
  have "set (wiring_pairs (edgesToWiring cmp edges)) = set (wiring_pairs (foldl group_step [] edges))"
    unfolding set_wiring_pairs set_edgesToWiring by force
  also have "\<dots> = set (wiring_pairs []) \<union> set (edges_pairs edges)"
    by (rule pairs_foldl)
  also have "\<dots> = set (edges_pairs edges)"
    by (simp add: wiring_pairs_def)
  finally show ?thesis .
qed

text \<open>
  Claim C4. For every list of edges the wiring produced by \<open>edgesToWiring\<close> contains each
  (source reference, destination reference) pair at most once, with one entry per source
  reference; re-adding a connection that is already present leaves the wiring unchanged.
\<close>

theorem edgesToWiring_no_duplicates:
  "distinct (wiring_pairs (edgesToWiring cmp edges))
   \<and> distinct (map fst (edgesToWiring cmp edges))
   \<and> (e \<in> set edges \<and> edge_refs e' = edge_refs e \<longrightarrow>
        edgesToWiring cmp (edges @ [e']) = edgesToWiring cmp edges)"
proof (intro conjI impI)
  have ok: "grouped_ok (edgesToWiring cmp edges)" by (rule grouped_ok_edgesToWiring)
  then show "distinct (map fst (edgesToWiring cmp edges))"
    by (simp add: grouped_ok_def)
  from ok show "distinct (wiring_pairs (edgesToWiring cmp edges))"
    by (intro distinct_wiring_pairs) (auto simp: grouped_ok_def)
next
  assume a: "e \<in> set edges \<and> edge_refs e' = edge_refs e"
  let ?G = "foldl group_step [] edges"
  have G: "grouped_ok ?G" by (rule grouped_ok_foldl [OF grouped_ok_Nil])
  have "group_step ?G e' = ?G"
  proof (cases "edge_refs e'")
    case None
    then show ?thesis by (simp add: group_step_refs)
  next
    case (Some p)
    obtain f t where p: "p = (f, t)" by (cases p)
    have "edge_refs e = Some (f, t)" using a Some p by simp
    then have "(f, t) \<in> set (edges_pairs edges)"
      using a by (force simp: edges_pairs_def map_filter_def)
    then have "(f, t) \<in> set (wiring_pairs ?G)"
      by (simp add: pairs_foldl)
    then obtain ts where "(f, ts) \<in> set ?G" "t \<in> set ts"
      unfolding set_wiring_pairs by blast
    then have "grouped_add f t ?G = ?G"
      using G by (intro grouped_add_present) (auto simp: grouped_ok_def)
    then show ?thesis
      by (simp add: group_step_refs Some p)
  qed
  then show "edgesToWiring cmp (edges @ [e']) = edgesToWiring cmp edges"
    by (simp add: edgesToWiring_def)
qed

theorem edgesToWiring_no_duplicates_witness:
  "\<lparr>edge_id = ''w-1-eye.visual_stream->lgn.retina'', source = ''eye'', sourceHandle = Some ''visual_stream'',
      target = ''lgn'', targetHandle = Some ''retina''\<rparr>
     \<in> set [\<lparr>edge_id = ''w-1-eye.visual_stream->lgn.retina'', source = ''eye'', sourceHandle = Some ''visual_stream'',
      target = ''lgn'', targetHandle = Some ''retina''\<rparr>]
   \<and> edge_refs \<lparr>edge_id = ''e-17'', source = ''eye'', sourceHandle = Some ''visual_stream'',
      target = ''lgn'', targetHandle = Some ''retina''\<rparr>
     = edge_refs \<lparr>edge_id = ''w-1-eye.visual_stream->lgn.retina'', source = ''eye'', sourceHandle = Some ''visual_stream'',
      target = ''lgn'', targetHandle = Some ''retina''\<rparr>
   \<and> edgesToWiring default
        ([\<lparr>edge_id = ''w-1-eye.visual_stream->lgn.retina'', source = ''eye'', sourceHandle = Some ''visual_stream'',
            target = ''lgn'', targetHandle = Some ''retina''\<rparr>]
         @ [\<lparr>edge_id = ''e-17'', source = ''eye'', sourceHandle = Some ''visual_stream'',
            target = ''lgn'', targetHandle = Some ''retina''\<rparr>])
     = edgesToWiring default
        [\<lparr>edge_id = ''w-1-eye.visual_stream->lgn.retina'', source = ''eye'', sourceHandle = Some ''visual_stream'',
            target = ''lgn'', targetHandle = Some ''retina''\<rparr>]
   \<and> wiring_pairs (edgesToWiring default
        [\<lparr>edge_id = ''w-1-eye.visual_stream->lgn.retina'', source = ''eye'', sourceHandle = Some ''visual_stream'',
            target = ''lgn'', targetHandle = Some ''retina''\<rparr>]) = [(''eye.visual_stream'', ''lgn.retina'')]"
proof -
  let ?e = "\<lparr>edge_id = ''w-1-eye.visual_stream->lgn.retina'', source = ''eye'', sourceHandle = Some ''visual_stream'',
      target = ''lgn'', targetHandle = Some ''retina''\<rparr>"
  let ?e' = "\<lparr>edge_id = ''e-17'', source = ''eye'', sourceHandle = Some ''visual_stream'',
      target = ''lgn'', targetHandle = Some ''retina''\<rparr>"
  have h: "?e \<in> set [?e] \<and> edge_refs ?e' = edge_refs ?e"
    by (simp add: edge_refs_def)
  have v: "wiring_pairs (edgesToWiring default [?e]) = [(''eye.visual_stream'', ''lgn.retina'')]"
    by (simp add: edgesToWiring_def group_step_def grouped_add_def grouped_has_def set_add_def wiring_pairs_def)
  show ?thesis
    using h v edgesToWiring_no_duplicates [of default "[?e]" ?e ?e'] by blast
qed

text \<open>
  Claim C3, amended. The wiring produced by \<open>edgesToWiring\<close> does not keep insertion order:
  its entries are sorted by source reference with \<^verbatim>\<open>localeCompare\<close>, the targets of each
  entry are in strictly ascending code-unit order, and the pairs listed are exactly the
  pairs of the edges.
\<close>

theorem edgesToWiring_sorted:
  "Sorting_Algorithms.sorted (key fst cmp) (edgesToWiring cmp edges)
   \<and> (\<forall>(k, ts) \<in> set (edgesToWiring cmp edges). Sorting_Algorithms.sorted default ts \<and> distinct ts)
   \<and> set (wiring_pairs (edgesToWiring cmp edges)) = set (edges_pairs edges)"
proof (intro conjI)
  have "map fst (edgesToWiring cmp edges)
        = map fst (Sorting_Algorithms.sort (key fst cmp) (foldl group_step [] edges))"
    by (rule keys_edgesToWiring)
  moreover have "Sorting_Algorithms.sorted cmp
      (map fst (Sorting_Algorithms.sort (key fst cmp) (foldl group_step [] edges)))"
    using sorted_sort [of "key fst cmp" "foldl group_step [] edges"]
    by (simp only: sorted_key_map)
  ultimately show "Sorting_Algorithms.sorted (key fst cmp) (edgesToWiring cmp edges)"
    by (simp only: sorted_key_map)
next
  have ok: "grouped_ok (edgesToWiring cmp edges)" by (rule grouped_ok_edgesToWiring)
  show "\<forall>(k, ts) \<in> set (edgesToWiring cmp edges). Sorting_Algorithms.sorted default ts \<and> distinct ts"
  proof (clarify, rule conjI)
    fix k ts assume m: "(k, ts) \<in> set (edgesToWiring cmp edges)"
    then show "Sorting_Algorithms.sorted default ts"
      unfolding set_edgesToWiring by auto
    from m ok show "distinct ts" by (auto simp: grouped_ok_def)
  qed
next
  show "set (wiring_pairs (edgesToWiring cmp edges)) = set (edges_pairs edges)"
    by (rule pairs_edgesToWiring)
qed

theorem edgesToWiring_sorted_witness:
  "(''eye.visual_stream'', [''lgn.retina'', ''sc.vision''])
     \<in> set (edgesToWiring default
         [\<lparr>edge_id = ''e-1'', source = ''eye'', sourceHandle = Some ''visual_stream'',
            target = ''sc'', targetHandle = Some ''vision''\<rparr>,
          \<lparr>edge_id = ''e-2'', source = ''eye'', sourceHandle = Some ''visual_stream'',
            target = ''lgn'', targetHandle = Some ''retina''\<rparr>])
   \<and> Sorting_Algorithms.sorted default [''lgn.retina'', ''sc.vision'']
   \<and> distinct [''lgn.retina'', ''sc.vision'']"
proof -
  let ?es = "[\<lparr>edge_id = ''e-1'', source = ''eye'', sourceHandle = Some ''visual_stream'',
            target = ''sc'', targetHandle = Some ''vision''\<rparr>,
          \<lparr>edge_id = ''e-2'', source = ''eye'', sourceHandle = Some ''visual_stream'',
            target = ''lgn'', targetHandle = Some ''retina''\<rparr>]"
  have m: "(''eye.visual_stream'', [''lgn.retina'', ''sc.vision'']) \<in> set (edgesToWiring default ?es)"
    by (simp add: edgesToWiring_def group_step_def grouped_add_def grouped_has_def set_add_def)
  show ?thesis
    using m edgesToWiring_sorted [of default ?es] by blast
qed

text \<open>
  Claim C3, as stated, fails: adding \<open>eye.visual_stream \<rightarrow> sc.vision\<close> and then
  \<open>eye.visual_stream \<rightarrow> lgn.retina\<close> yields a wiring that lists \<open>lgn.retina\<close> first.
\<close>

theorem edgesToWiring_order_counterexample:
  "edges_pairs
     [\<lparr>edge_id = ''e-1'', source = ''eye'', sourceHandle = Some ''visual_stream'',
        target = ''sc'', targetHandle = Some ''vision''\<rparr>,
      \<lparr>edge_id = ''e-2'', source = ''eye'', sourceHandle = Some ''visual_stream'',
        target = ''lgn'', targetHandle = Some ''retina''\<rparr>]
     = [(''eye.visual_stream'', ''sc.vision''), (''eye.visual_stream'', ''lgn.retina'')]
   \<and> wiring_pairs (edgesToWiring default
     [\<lparr>edge_id = ''e-1'', source = ''eye'', sourceHandle = Some ''visual_stream'',
        target = ''sc'', targetHandle = Some ''vision''\<rparr>,
      \<lparr>edge_id = ''e-2'', source = ''eye'', sourceHandle = Some ''visual_stream'',
        target = ''lgn'', targetHandle = Some ''retina''\<rparr>])
     = [(''eye.visual_stream'', ''lgn.retina''), (''eye.visual_stream'', ''sc.vision'')]
   \<and> wiring_pairs (edgesToWiring default
     [\<lparr>edge_id = ''e-1'', source = ''eye'', sourceHandle = Some ''visual_stream'',
        target = ''sc'', targetHandle = Some ''vision''\<rparr>,
      \<lparr>edge_id = ''e-2'', source = ''eye'', sourceHandle = Some ''visual_stream'',
        target = ''lgn'', targetHandle = Some ''retina''\<rparr>])
     \<noteq> edges_pairs
     [\<lparr>edge_id = ''e-1'', source = ''eye'', sourceHandle = Some ''visual_stream'',
        target = ''sc'', targetHandle = Some ''vision''\<rparr>,
      \<lparr>edge_id = ''e-2'', source = ''eye'', sourceHandle = Some ''visual_stream'',
        target = ''lgn'', targetHandle = Some ''retina''\<rparr>]"
  by (simp add: edgesToWiring_def group_step_def grouped_add_def grouped_has_def set_add_def
      wiring_pairs_def edges_pairs_def edge_refs_def map_filter_simps)

section \<open>Properties of the solver and the world\<close>

lemma fixed_loop_result:
  "fixed_loop add steps dt i t out =
     (out @ map (\<lambda>j. (STEP, Some \<lparr>step_i = j, step_t = ((\<lambda>x. add x dt) ^^ (j - i + 1)) t\<rparr>)) [i..<steps],
      ((\<lambda>x. add x dt) ^^ (steps - i)) t)"
proof (induction add steps dt i t out rule: fixed_loop.induct)
  case (1 add steps dt i t out)
  let ?f = "\<lambda>x. add x dt"
  show ?case
  proof (cases "i < steps")
    case False
    then show ?thesis by (simp add: fixed_loop.simps [of add steps dt i t out])
  next
    case True
    have m: "map (\<lambda>j. (STEP, Some \<lparr>step_i = j, step_t = (?f ^^ (j - Suc i + 1)) (add t dt)\<rparr>)) [Suc i..<steps]
           = map (\<lambda>j. (STEP, Some \<lparr>step_i = j, step_t = (?f ^^ (j - i + 1)) t\<rparr>)) [Suc i..<steps]"
    proof (rule map_cong [OF refl])
      fix j assume "j \<in> set [Suc i..<steps]"
      then have "j - i + 1 = Suc (j - Suc i + 1)" by auto
      then have "(?f ^^ (j - i + 1)) t = (?f ^^ (j - Suc i + 1)) (add t dt)"
        by (simp only: funpow_Suc_right o_apply)
      then show "(STEP, Some \<lparr>step_i = j, step_t = (?f ^^ (j - Suc i + 1)) (add t dt)\<rparr>)
               = (STEP, Some \<lparr>step_i = j, step_t = (?f ^^ (j - i + 1)) t\<rparr>)"
        by simp
    qed
    have e: "(?f ^^ (steps - Suc i)) (add t dt) = (?f ^^ (steps - i)) t"
    proof -
      have "steps - i = Suc (steps - Suc i)" using True by simp
      then show ?thesis by (simp only: funpow_Suc_right o_apply)
    qed
    have "fixed_loop add steps dt i t out =
            fixed_loop add steps dt (Suc i) (add t dt) (out @ [(STEP, Some \<lparr>step_i = i, step_t = add t dt\<rparr>)])"
      using True by (simp add: fixed_loop.simps [of add steps dt i t out])
    also have "\<dots> = ((out @ [(STEP, Some \<lparr>step_i = i, step_t = add t dt\<rparr>)])
                        @ map (\<lambda>j. (STEP, Some \<lparr>step_i = j, step_t = (?f ^^ (j - Suc i + 1)) (add t dt)\<rparr>)) [Suc i..<steps],
                      (?f ^^ (steps - Suc i)) (add t dt))"
      using True by (rule "1.IH")
    finally show ?thesis
      using True unfolding m e by (simp add: upt_conv_Cons)
  qed
qed

lemma funpow_add_exact:
  "((\<lambda>x. x + dt) ^^ k) t = t + of_nat k * (dt :: 'a :: semiring_1)"
  by (induction k) (simp_all add: algebra_simps)

text \<open>
  Claim C7. For every number of steps \<open>N\<close> and every \<open>dt\<close>, the fixed-step solver calls
  \<^verbatim>\<open>emit\<close> with a \<open>STEP\<close> event exactly \<open>N\<close> times, with the indices \<open>0..N-1\<close> in
  increasing order; the \<open>i\<close>-th time is \<open>dt\<close> added \<open>i+1\<close> times to the initial time and
  the summary has \<open>N\<close> steps and the time after \<open>N\<close> additions, whatever the addition is.
  With an exact addition these times are \<open>(i+1)*dt\<close> and \<open>N*dt\<close>.
\<close>

theorem FixedStepSolver_emits_steps:
  "FixedStepSolver_simulate add zero N dt =
     (map (\<lambda>i. (STEP, Some \<lparr>step_i = i, step_t = ((\<lambda>x. add x dt) ^^ (i + 1)) zero\<rparr>)) [0..<N],
      \<lparr>sum_steps = N, sum_time = ((\<lambda>x. add x dt) ^^ N) zero\<rparr>)
   \<and> FixedStepSolver_simulate (+) 0 N (dt' :: rat) =
     (map (\<lambda>i. (STEP, Some \<lparr>step_i = i, step_t = of_nat (i + 1) * dt'\<rparr>)) [0..<N],
      \<lparr>sum_steps = N, sum_time = of_nat N * dt'\<rparr>)"
  by (simp add: FixedStepSolver_simulate_def fixed_loop_result funpow_add_exact del: funpow.simps)

lemma FixedStepSolver_only_step:
  "e \<in> set (fst (FixedStepSolver_simulate add zero steps dt)) \<Longrightarrow> fst e = STEP"
  by (auto simp: FixedStepSolver_simulate_def fixed_loop_result)

lemma count_event_append: "count_event ev (xs @ ys) = count_event ev xs + count_event ev ys"
  by (simp add: count_event_def)

lemma count_event_only_step:
  assumes "\<forall>e \<in> set evs. fst e = STEP" and "ev \<noteq> STEP"
  shows "count_event ev evs = 0"
  using assms by (auto simp: count_event_def filter_empty_conv)

lemma world_simulate_events:
  "fst (world_simulate sol w steps dt) =
     (if loaded_emitted w then [] else [(LOADED, None)])
     @ [(BEFORE_SIMULATION, None)] @ fst (sol steps dt) @ [(AFTER_SIMULATION, None)]"
  by (simp add: world_simulate_def Let_def split: prod.splits)

lemma world_simulate_world:
  "loaded_emitted (snd (snd (world_simulate sol w steps dt)))"
  by (simp add: world_simulate_def Let_def split: prod.splits)

lemma simulate_all_Cons:
  "fst (simulate_all sol w ((steps, dt) # calls)) =
     fst (world_simulate sol w steps dt)
     @ fst (simulate_all sol (snd (snd (world_simulate sol w steps dt))) calls)"
  by (simp add: Let_def split: prod.splits)

lemma count_event_world_simulate:
  assumes only: "\<forall>e \<in> set (fst (sol steps dt)). fst e = STEP"
  shows "count_event LOADED (fst (world_simulate sol w steps dt)) = (if loaded_emitted w then 0 else 1)"
    and "count_event BEFORE_SIMULATION (fst (world_simulate sol w steps dt)) = 1"
    and "count_event AFTER_SIMULATION (fst (world_simulate sol w steps dt)) = 1"
proof -
  have z: "count_event LOADED (fst (sol steps dt)) = 0"
          "count_event BEFORE_SIMULATION (fst (sol steps dt)) = 0"
          "count_event AFTER_SIMULATION (fst (sol steps dt)) = 0"
    using only by (simp_all add: count_event_only_step)
  have nil: "count_event ev [] = 0" for ev
    by (simp add: count_event_def)
  have cons: "count_event ev (e # es) = (if fst e = ev then 1 else 0) + count_event ev es" for ev e es
    by (simp add: count_event_def)
  show "count_event LOADED (fst (world_simulate sol w steps dt)) = (if loaded_emitted w then 0 else 1)"
    by (simp add: world_simulate_events count_event_append z cons nil)
  show "count_event BEFORE_SIMULATION (fst (world_simulate sol w steps dt)) = 1"
    by (simp add: world_simulate_events count_event_append z cons nil)
  show "count_event AFTER_SIMULATION (fst (world_simulate sol w steps dt)) = 1"
    by (simp add: world_simulate_events count_event_append z cons nil)
qed

lemma simulate_all_counts:
  assumes only: "\<And>steps dt. \<forall>e \<in> set (fst (sol steps dt)). fst e = STEP"
  shows "count_event LOADED (fst (simulate_all sol w calls)) = (if loaded_emitted w \<or> calls = [] then 0 else 1)
       \<and> count_event BEFORE_SIMULATION (fst (simulate_all sol w calls)) = length calls
       \<and> count_event AFTER_SIMULATION (fst (simulate_all sol w calls)) = length calls"
proof (induction calls arbitrary: w)
  case Nil
  then show ?case by (simp add: count_event_def)
next
  case (Cons c calls)
  obtain steps dt where c: "c = (steps, dt)" by (cases c)
  let ?w' = "snd (snd (world_simulate sol w steps dt))"
  have w': "loaded_emitted ?w'" by (rule world_simulate_world)
  have ih: "count_event LOADED (fst (simulate_all sol ?w' calls)) = 0"
           "count_event BEFORE_SIMULATION (fst (simulate_all sol ?w' calls)) = length calls"
           "count_event AFTER_SIMULATION (fst (simulate_all sol ?w' calls)) = length calls"
    using Cons.IH [of ?w'] w' by simp_all
  show ?case
    unfolding c simulate_all_Cons count_event_append ih
      count_event_world_simulate [where sol = sol and steps = steps and dt = dt, OF only]
    by simp
qed

lemma simulate_all_first:
  "map fst (take 1 (fst (simulate_all sol new_world calls))) = (if calls = [] then [] else [LOADED])"
proof (cases calls)
  case Nil
  then show ?thesis by simp
next
  case (Cons c calls')
  obtain steps dt where c: "c = (steps, dt)" by (cases c)
  show ?thesis
    unfolding Cons c simulate_all_Cons world_simulate_events
    by (simp add: new_world_def)
qed

text \<open>
  Claim C8. On a new world, for any sequence of \<^verbatim>\<open>simulate\<close> calls with a solver that
  emits only \<open>STEP\<close> events, \<open>LOADED\<close> is observed exactly once if there is a call (never
  more), it is the first event observed, and \<open>BEFORE_SIMULATION\<close> and
  \<open>AFTER_SIMULATION\<close> are each observed once per call.
\<close>

theorem LOADED_emitted_once:
  assumes "\<And>steps dt. \<forall>e \<in> set (fst (sol steps dt)). fst e = STEP"
  shows "count_event LOADED (fst (simulate_all sol new_world calls)) = (if calls = [] then 0 else 1)
       \<and> map fst (take 1 (fst (simulate_all sol new_world calls))) = (if calls = [] then [] else [LOADED])
       \<and> count_event BEFORE_SIMULATION (fst (simulate_all sol new_world calls)) = length calls
       \<and> count_event AFTER_SIMULATION (fst (simulate_all sol new_world calls)) = length calls"
proof -
  have n: "\<not> loaded_emitted new_world" by (simp add: new_world_def)
  show ?thesis
    using simulate_all_counts [where sol = sol and w = new_world and calls = calls, OF assms]
      simulate_all_first [of sol calls] n
    by simp
qed

theorem LOADED_emitted_once_witness:
  "count_event LOADED (fst (simulate_all (FixedStepSolver_simulate (+) 0) new_world [(2, 1 / 10 :: rat), (3, 1 / 10)])) = 1
   \<and> map fst (take 1 (fst (simulate_all (FixedStepSolver_simulate (+) 0) new_world [(2, 1 / 10 :: rat), (3, 1 / 10)]))) = [LOADED]
   \<and> count_event BEFORE_SIMULATION (fst (simulate_all (FixedStepSolver_simulate (+) 0) new_world [(2, 1 / 10 :: rat), (3, 1 / 10)])) = 2
   \<and> count_event AFTER_SIMULATION (fst (simulate_all (FixedStepSolver_simulate (+) 0) new_world [(2, 1 / 10 :: rat), (3, 1 / 10)])) = 2"
proof -
  have h: "\<forall>e \<in> set (fst (FixedStepSolver_simulate (+) 0 steps dt)). fst e = STEP"
    for steps and dt :: rat
    by (rule ballI) (rule FixedStepSolver_only_step)
  have c: "([(2::nat, 1 / 10 :: rat), (3, 1 / 10)] = []) = False"
          "length [(2::nat, 1 / 10 :: rat), (3, 1 / 10)] = 2"
    by simp_all
  show ?thesis
    using LOADED_emitted_once [where sol = "FixedStepSolver_simulate (+) 0"
                                   and calls = "[(2, 1 / 10 :: rat), (3, 1 / 10)]", OF h]
    unfolding c if_False by blast
qed

section \<open>Idempotence of the normalisation\<close>

lemma valid_dsts_Nil: "valid_dsts [] = []"
  by (simp add: valid_dsts_def)

lemma valid_dsts_Cons:
  "valid_dsts (d # ds) =
     (case d of JStr s \<Rightarrow> (if parseRef s = None then [] else [s]) | _ \<Rightarrow> []) @ valid_dsts ds"
  by (simp add: valid_dsts_def)

lemma valid_dsts_parse: "s \<in> set (valid_dsts ds) \<Longrightarrow> parseRef s \<noteq> None"
  by (auto simp: valid_dsts_def split: json.splits if_splits)

lemma valid_dsts_strings:
  "\<forall>t \<in> set ts. parseRef t \<noteq> None \<Longrightarrow> valid_dsts (map JStr ts) = ts"
  by (induction ts) (simp_all add: valid_dsts_Nil valid_dsts_Cons)

lemma edge_refs_mk_edge:
  assumes "parseRef srcRef = Some src" and "parseRef dstRef = Some dst"
  shows "edge_refs (mk_edge k srcRef dstRef src dst) = Some (srcRef, dstRef)"
  using parseRef_SomeD [OF assms(1)] parseRef_SomeD [OF assms(2)]
  by (simp add: edge_refs_def mk_edge_def)

lemma dst_loop_pairs:
  assumes "parseRef srcRef = Some src"
  shows "edges_pairs (fst (dst_loop srcRef src ds (E, k))) =
           edges_pairs E @ map (Pair srcRef) (valid_dsts ds)"
proof (induction ds arbitrary: E k)
  case Nil
  then show ?case by (simp add: valid_dsts_Nil)
next
  case (Cons d ds)
  show ?case
  proof (cases d)
    case (JStr s)
    show ?thesis
    proof (cases "parseRef s")
      case None
      then show ?thesis by (simp add: JStr Cons.IH valid_dsts_Cons)
    next
      case (Some dst)
      then show ?thesis
        by (simp add: JStr Cons.IH valid_dsts_Cons edges_pairs_append edges_pairs_Cons
            edges_pairs_Nil edge_refs_mk_edge [OF assms Some])
    qed
  qed (simp_all add: Cons.IH valid_dsts_Cons)
qed

lemma entry_loop_pairs:
  "edges_pairs (fst (entry_loop es (E, k))) = edges_pairs E @ concat (map entry_pairs es)"
proof (induction es arbitrary: E k)
  case Nil
  then show ?case by simp
next
  case (Cons entry es)
  show ?case
  proof (cases "parseRef (srcRef_of entry)")
    case None
    then show ?thesis by (simp add: Cons.IH entry_pairs_def)
  next
    case (Some src)
    obtain E' k' where st: "dst_loop (srcRef_of entry) src (dstRefs_of entry) (E, k) = (E', k')"
      by (cases "dst_loop (srcRef_of entry) src (dstRefs_of entry) (E, k)")
    have "edges_pairs E' = edges_pairs E @ map (Pair (srcRef_of entry)) (valid_dsts (dstRefs_of entry))"
      using dst_loop_pairs [OF Some, of "dstRefs_of entry" E k] by (simp add: st)
    then show ?thesis
      by (simp add: Some st Cons.IH entry_pairs_def)
  qed
qed

lemma entry_pairs_parse:
  "p \<in> set (entry_pairs entry) \<Longrightarrow> parseRef (fst p) \<noteq> None \<and> parseRef (snd p) \<noteq> None"
  by (auto simp: entry_pairs_def dest: valid_dsts_parse split: if_splits)

lemma wiringToEdges_pairs_parse:
  assumes "wiringToEdges w = Inr es" and "p \<in> set (edges_pairs es)"
  shows "parseRef (fst p) \<noteq> None \<and> parseRef (snd p) \<noteq> None"
proof -
  from assms(1) obtain wiring where es: "es = fst (entry_loop wiring ([], 0))"
    by (auto simp: wiringToEdges_def split: sum.splits)
  have "edges_pairs es = concat (map entry_pairs wiring)"
    unfolding es by (simp add: entry_loop_pairs edges_pairs_Nil)
  then obtain entry where "p \<in> set (entry_pairs entry)"
    using assms(2) by auto
  then show ?thesis by (rule entry_pairs_parse)
qed

lemma entry_pairs_wiring_json:
  assumes "parseRef f \<noteq> None" and "\<forall>t \<in> set ts. parseRef t \<noteq> None"
  shows "entry_pairs (JObj [(''from'', JStr f), (''to'', JArr (map JStr ts))]) = map (Pair f) ts"
proof -
  have s: "srcRef_of (JObj [(''from'', JStr f), (''to'', JArr (map JStr ts))]) = f"
    by (simp add: srcRef_of_def)
  have d: "dstRefs_of (JObj [(''from'', JStr f), (''to'', JArr (map JStr ts))]) = map JStr ts"
    by (simp add: dstRefs_of_def dstRefsRaw_of_def)
  have v: "valid_dsts (map JStr ts) = ts"
    using assms(2) by (rule valid_dsts_strings)
  show ?thesis
    unfolding entry_pairs_def s d v using assms(1) by auto
qed

lemma wiringToEdges_wiring_json:
  assumes "\<forall>(f, ts) \<in> set n. parseRef f \<noteq> None \<and> (\<forall>t \<in> set ts. parseRef t \<noteq> None)"
  shows "\<exists>es. wiringToEdges (wiring_json n) = Inr es \<and> edges_pairs es = wiring_pairs n"
proof -
  let ?obj = "\<lambda>(from_ref, targets). JObj [(''from'', JStr from_ref), (''to'', JArr (map JStr targets))]"
  have keep: "filter (\<lambda>entry. truthy entry \<and> typeof entry = TObject) (map ?obj n) = map ?obj n"
    by (induction n) (auto simp: case_prod_unfold)
  have w: "wiringToEdges (wiring_json n) = Inr (fst (entry_loop (map ?obj n) ([], 0)))"
    by (simp add: wiringToEdges_def normalizeWiring_def wiring_json_def keep)
  have "concat (map entry_pairs (map ?obj n)) = wiring_pairs n"
    using assms
  proof (induction n)
    case Nil
    then show ?case by (simp add: wiring_pairs_def)
  next
    case (Cons a n)
    obtain f ts where a: "a = (f, ts)" by (cases a)
    have "entry_pairs (?obj a) = map (Pair f) ts"
      using Cons.prems by (simp add: a entry_pairs_wiring_json)
    moreover have "concat (map entry_pairs (map ?obj n)) = wiring_pairs n"
      using Cons by simp
    ultimately show ?case
      by (simp add: wiring_pairs_def a)
  qed
  then have "edges_pairs (fst (entry_loop (map ?obj n) ([], 0))) = wiring_pairs n"
    by (simp add: entry_loop_pairs edges_pairs_Nil)
  then show ?thesis using w by blast
qed

lemma map_upd_other:
  assumes "f \<notin> fst ` set g"
  shows "map (\<lambda>(k, targets). if k = f then (k, set_add t targets) else (k, targets)) g = g"
  using assms by (induction g) auto

lemma grouped_add_new:
  assumes "f \<notin> fst ` set g"
  shows "grouped_add f t g = g @ [(f, [t])]"
  using assms by (simp add: grouped_add_def grouped_has_def map_upd_other set_add_def)

lemma grouped_add_last:
  assumes "f \<notin> fst ` set g" and "t \<notin> set acc"
  shows "grouped_add f t (g @ [(f, acc)]) = g @ [(f, acc @ [t])]"
  using assms by (simp add: grouped_add_def grouped_has_def map_upd_other set_add_def)

lemma foldl_add_same_key:
  assumes "f \<notin> fst ` set g" and "distinct (acc @ ts)"
  shows "foldl (\<lambda>g (f, t). grouped_add f t g) (g @ [(f, acc)]) (map (Pair f) ts) = g @ [(f, acc @ ts)]"
  using assms(2)
proof (induction ts arbitrary: acc)
  case Nil
  then show ?case by simp
next
  case (Cons t ts)
  have "t \<notin> set acc" using Cons.prems by auto
  then have step: "grouped_add f t (g @ [(f, acc)]) = g @ [(f, acc @ [t])]"
    using assms(1) by (intro grouped_add_last)
  have "distinct ((acc @ [t]) @ ts)" using Cons.prems by simp
  then have "foldl (\<lambda>g (f, t). grouped_add f t g) (g @ [(f, acc @ [t])]) (map (Pair f) ts)
             = g @ [(f, (acc @ [t]) @ ts)]"
    by (rule Cons.IH)
  then show ?case
    by (simp add: step)
qed

lemma foldl_add_group:
  assumes "f \<notin> fst ` set g" and "distinct ts" and "ts \<noteq> []"
  shows "foldl (\<lambda>g (f, t). grouped_add f t g) g (map (Pair f) ts) = g @ [(f, ts)]"
proof -
  from assms(3) obtain t ts' where ts: "ts = t # ts'" by (cases ts) auto
  have "distinct ([t] @ ts')" using assms(2) ts by simp
  then have "foldl (\<lambda>g (f, t). grouped_add f t g) (g @ [(f, [t])]) (map (Pair f) ts') = g @ [(f, [t] @ ts')]"
    using assms(1) by (intro foldl_add_same_key)
  then show ?thesis
    by (simp add: ts grouped_add_new [OF assms(1)])
qed

lemma wiring_pairs_Cons:
  "wiring_pairs ((f, ts) # w) = map (Pair f) ts @ wiring_pairs w"
  by (simp add: wiring_pairs_def)

lemma foldl_add_regroup:
  assumes "distinct (map fst (g @ w))" and "\<forall>(k, ts) \<in> set w. distinct ts \<and> ts \<noteq> []"
  shows "foldl (\<lambda>g (f, t). grouped_add f t g) g (wiring_pairs w) = g @ w"
  using assms
proof (induction w arbitrary: g)
  case Nil
  then show ?case by (simp add: wiring_pairs_def)
next
  case (Cons a w)
  obtain f ts where a: "a = (f, ts)" by (cases a)
  have nf: "f \<notin> fst ` set g" using Cons.prems(1) by (auto simp: a)
  have d: "distinct ts" "ts \<noteq> []" using Cons.prems(2) by (auto simp: a)
  have one: "foldl (\<lambda>g (f, t). grouped_add f t g) g (map (Pair f) ts) = g @ [(f, ts)]"
    using nf d by (rule foldl_add_group)
  have "distinct (map fst ((g @ [(f, ts)]) @ w))" using Cons.prems(1) by (simp add: a)
  moreover have "\<forall>(k, ts) \<in> set w. distinct ts \<and> ts \<noteq> []" using Cons.prems(2) by simp
  ultimately have "foldl (\<lambda>g (f, t). grouped_add f t g) (g @ [(f, ts)]) (wiring_pairs w) = (g @ [(f, ts)]) @ w"
    by (rule Cons.IH)
  then show ?case
    by (simp add: a wiring_pairs_Cons one)
qed

lemma regroup_grouped_ok:
  assumes "grouped_ok w" and "edges_pairs es = wiring_pairs w"
  shows "foldl group_step [] es = w"
proof -
  have "foldl group_step [] es = foldl (\<lambda>g (f, t). grouped_add f t g) [] (wiring_pairs w)"
    by (simp add: foldl_group_step assms(2))
  also have "\<dots> = [] @ w"
    using assms(1) by (intro foldl_add_regroup) (auto simp: grouped_ok_def)
  finally show ?thesis by simp
qed

lemma edgesToWiring_fixed:
  assumes ok: "grouped_ok w"
    and srt: "Sorting_Algorithms.sorted (key fst cmp) w"
    and tsrt: "\<forall>(k, ts) \<in> set w. Sorting_Algorithms.sorted default ts"
    and pairs: "edges_pairs es = wiring_pairs w"
  shows "edgesToWiring cmp es = w"
proof -
  have g: "foldl group_step [] es = w" using ok pairs by (rule regroup_grouped_ok)
  have s: "Sorting_Algorithms.sort (key fst cmp) w = w" using srt by (rule sort_sorted_id)
  have "(case x of (from_ref, targets) \<Rightarrow> (from_ref, Sorting_Algorithms.sort default targets)) = x"
    if "x \<in> set w" for x
    using that tsrt by (cases x) (auto simp: sort_sorted_id)
  then have "map (\<lambda>(from_ref, targets). (from_ref, Sorting_Algorithms.sort default targets)) w = w"
    by (simp add: map_idI)
  then show ?thesis
    by (simp add: edgesToWiring_def g s)
qed

text \<open>
  Claim C9. Wiring normalisation is idempotent: for every array \<open>w\<close>, the composition of
  \<open>wiringToEdges\<close> and \<open>edgesToWiring\<close> returns a wiring \<open>n\<close>, and applying the same
  composition to \<open>n\<close> returns \<open>n\<close> unchanged. \<^verbatim>\<open>localeCompare\<close> is any consistent
  comparator.
\<close>

theorem normalizeRaw_idempotent:
  assumes "isArray w"
  shows "\<exists>n. normalizeRaw cmp w = Inr n \<and> normalizeRaw cmp (wiring_json n) = Inr n"
proof -
  from assms obtain entries where w: "w = JArr entries" by (cases w) auto
  obtain es where es: "wiringToEdges w = Inr es"
    unfolding w by (simp add: wiringToEdges_array)
  let ?n = "edgesToWiring cmp es"
  have n: "normalizeRaw cmp w = Inr ?n" by (simp add: normalizeRaw_def es)
  have ok: "grouped_ok ?n" by (rule grouped_ok_edgesToWiring)
  have parse: "\<forall>(f, ts) \<in> set ?n. parseRef f \<noteq> None \<and> (\<forall>t \<in> set ts. parseRef t \<noteq> None)"
  proof (clarify, rule conjI)
    fix f ts assume m: "(f, ts) \<in> set ?n"
    then have ne: "ts \<noteq> []" using ok by (auto simp: grouped_ok_def)
    have all: "parseRef f \<noteq> None \<and> parseRef t \<noteq> None" if "t \<in> set ts" for t
    proof -
      have "(f, t) \<in> set (wiring_pairs ?n)" using m that unfolding set_wiring_pairs by blast
      then have "(f, t) \<in> set (edges_pairs es)" by (simp add: pairs_edgesToWiring)
      then show ?thesis using wiringToEdges_pairs_parse [OF es] by fastforce
    qed
    from ne obtain t where "t \<in> set ts" by (cases ts) auto
    then show "parseRef f \<noteq> None" using all by blast
    show "\<forall>t \<in> set ts. parseRef t \<noteq> None" using all by blast
  qed
  then obtain es' where es': "wiringToEdges (wiring_json ?n) = Inr es'"
      and pairs: "edges_pairs es' = wiring_pairs ?n"
    using wiringToEdges_wiring_json by blast
  have srt: "Sorting_Algorithms.sorted (key fst cmp) ?n"
  proof -
    have "Sorting_Algorithms.sorted cmp
        (map fst (Sorting_Algorithms.sort (key fst cmp) (foldl group_step [] es)))"
      using sorted_sort [of "key fst cmp" "foldl group_step [] es"]
      by (simp only: sorted_key_map)
    then show ?thesis
      by (simp only: sorted_key_map keys_edgesToWiring)
  qed
  have tsrt: "\<forall>(k, ts) \<in> set ?n. Sorting_Algorithms.sorted default ts"
    unfolding set_edgesToWiring by auto
  have "edgesToWiring cmp es' = ?n"
    using ok srt tsrt pairs by (rule edgesToWiring_fixed)
  then have "normalizeRaw cmp (wiring_json ?n) = Inr ?n"
    by (simp add: normalizeRaw_def es')
  then show ?thesis using n by blast
qed

theorem normalizeRaw_idempotent_witness:
  "isArray (JArr [JObj [(''from'', JStr ''lgn.thalamus''), (''to'', JStr ''sc.vision'')],
                  JObj [(''from'', JStr ''eye.out.visual_stream''),
                        (''targets'', JArr [JStr ''sc.vision'', JStr ''lgn.in.retina'', JStr ''sc.vision'',
                                            JNum 3, JStr ''bad''])],
                  JNull])
   \<and> normalizeRaw default
         (JArr [JObj [(''from'', JStr ''lgn.thalamus''), (''to'', JStr ''sc.vision'')],
                JObj [(''from'', JStr ''eye.out.visual_stream''),
                      (''targets'', JArr [JStr ''sc.vision'', JStr ''lgn.in.retina'', JStr ''sc.vision'',
                                          JNum 3, JStr ''bad''])],
                JNull])
       = Inr [(''eye.out.visual_stream'', [''lgn.in.retina'', ''sc.vision'']),
              (''lgn.thalamus'', [''sc.vision''])]
   \<and> normalizeRaw default
         (wiring_json [(''eye.out.visual_stream'', [''lgn.in.retina'', ''sc.vision'']),
                       (''lgn.thalamus'', [''sc.vision''])])
       = Inr [(''eye.out.visual_stream'', [''lgn.in.retina'', ''sc.vision'']),
              (''lgn.thalamus'', [''sc.vision''])]"
proof -
  let ?w = "JArr [JObj [(''from'', JStr ''lgn.thalamus''), (''to'', JStr ''sc.vision'')],
                  JObj [(''from'', JStr ''eye.out.visual_stream''),
                        (''targets'', JArr [JStr ''sc.vision'', JStr ''lgn.in.retina'', JStr ''sc.vision'',
                                            JNum 3, JStr ''bad''])],
                  JNull]"
  let ?n = "[(''eye.out.visual_stream'', [''lgn.in.retina'', ''sc.vision'']),
             (''lgn.thalamus'', [''sc.vision''])]"
  have a: "isArray ?w" by simp
  have e: "normalizeRaw default ?w = Inr ?n"
    by (simp add: normalizeRaw_def wiringToEdges_def normalizeWiring_def srcRef_of_def dstRefs_of_def
        dstRefsRaw_of_def parseRef_def mk_edge_def Let_def
        edgesToWiring_def group_step_def grouped_add_def grouped_has_def set_add_def)
  from normalizeRaw_idempotent [OF a, of default]
  obtain n where "normalizeRaw default ?w = Inr n" and i: "normalizeRaw default (wiring_json n) = Inr n"
    by blast
  then have "n = ?n" using e by simp
  then show ?thesis using a e i by simp
qed

end
